theory Spec2Isabelle
  imports Complex_Main "HOL-Library.Word" "HOL-Library.Sublist" "HOL-Library.Log_Nat"
begin

unbundle bit_operations_syntax

section \<open>Python values\<close>

text \<open>
  Python integers are unbounded and are modelled by \<open>int\<close>. A \<open>bytes\<close> object is a list
  of 8-bit characters. A \<open>str\<close> is represented by its UTF-8 encoding, so that
  \<open>content.encode('utf-8')\<close> is the identity on the representation; the two string
  operations the generator uses (\<open>split(':')\<close> and \<open>lstrip('//')\<close>) only look at ASCII
  characters, whose UTF-8 encoding is the single byte itself. Strings that have no UTF-8
  encoding (lone surrogates) are outside the model, and integers are printed in full,
  without the interpreter's optional limit on the number of digits.
\<close>

type_synonym bytes = "char list"

datatype py_error = ValueError | OverflowError | ZeroDivisionError

section \<open>Python floats\<close>

text \<open>
  A Python \<open>float\<close> is an IEEE 754 binary64 value. \<open>Finite s m e\<close> stands for
  \<open>(-1) ^ s * m * 2 ^ e\<close>; the representable ones have \<open>m < 2 ^ 53\<close> and
  \<open>-1074 \<le> e \<le> 971\<close>. Arithmetic rounds to nearest, ties to even, and a result beyond the
  largest finite value is an infinity.
\<close>

datatype pyfloat = Finite bool nat int | Infinity bool | NaN

definition is_double :: "pyfloat \<Rightarrow> bool" where
  "is_double x =
     (case x of Finite s m e \<Rightarrow> m < 2 ^ 53 \<and> - 1074 \<le> e \<and> e \<le> 971 | Infinity s \<Rightarrow> True | NaN \<Rightarrow> True)"

definition is_finite :: "pyfloat \<Rightarrow> bool" where
  "is_finite x = (case x of Finite s m e \<Rightarrow> True | Infinity s \<Rightarrow> False | NaN \<Rightarrow> False)"

text \<open>The real number a finite float denotes (0 is returned for an infinity or a NaN,
  which denote no real number; statements about \<open>valof\<close> come with \<open>is_finite\<close>).\<close>

definition valof :: "pyfloat \<Rightarrow> real" where
  "valof x =
     (case x of
        Finite s m e \<Rightarrow> (if s then - 1 else 1) * real m * 2 powi e
      | Infinity s \<Rightarrow> 0
      | NaN \<Rightarrow> 0)"

text \<open>\<open>x > 0\<close> for a float \<open>x\<close>: false for both zeros and for a NaN.\<close>

definition float_gt_zero :: "pyfloat \<Rightarrow> bool" where
  "float_gt_zero x =
     (case x of Finite s m e \<Rightarrow> \<not> s \<and> 0 < m | Infinity s \<Rightarrow> \<not> s | NaN \<Rightarrow> False)"

text \<open>The integer nearest to \<open>n / d\<close>, ties to the even one.\<close>

definition round_half_even :: "nat \<Rightarrow> nat \<Rightarrow> nat" where
  "round_half_even n d =
     (let q = n div d; r = n mod d
      in if 2 * r < d then q else if d < 2 * r then q + 1 else if even q then q else q + 1)"

text \<open>\<open>2 ^ k \<le> n / d\<close>, and the \<open>k\<close> with \<open>2 ^ k \<le> n / d < 2 ^ (k + 1)\<close> (for positive \<open>n\<close>, \<open>d\<close>).\<close>

definition ge_pow2 :: "nat \<Rightarrow> nat \<Rightarrow> int \<Rightarrow> bool" where
  "ge_pow2 n d k = (if 0 \<le> k then d * 2 ^ nat k \<le> n else d \<le> n * 2 ^ nat (- k))"

definition ilog2_ratio :: "nat \<Rightarrow> nat \<Rightarrow> int" where
  "ilog2_ratio n d =
     (let k0 = int (floorlog 2 n) - int (floorlog 2 d)
      in if ge_pow2 n d k0 then k0 else k0 - 1)"

text \<open>The binary64 value nearest to the positive rational \<open>n / d\<close>, with sign \<open>s\<close>:
  53 significant bits, or fewer below the smallest normal exponent.\<close>

definition float_of_ratio :: "bool \<Rightarrow> nat \<Rightarrow> nat \<Rightarrow> pyfloat" where
  "float_of_ratio s n d =
     (let ex = max (ilog2_ratio n d - 52) (- 1074);
          m = (if 0 \<le> ex then round_half_even n (d * 2 ^ nat ex)
               else round_half_even (n * 2 ^ nat (- ex)) d);
          (m', ex') = (if m = 2 ^ 53 then (2 ^ 52, ex + 1) else (m, ex))
      in if 971 < ex' then Infinity s else Finite s m' ex')"

text \<open>\<open>1 / x\<close> for a float \<open>x\<close>: the integer 1 is converted to \<open>1.0\<close>; a zero divisor
  raises \<open>ZeroDivisionError\<close>.\<close>

definition py_truediv_one :: "pyfloat \<Rightarrow> py_error + pyfloat" where
  "py_truediv_one x =
     (case x of
        NaN \<Rightarrow> Inr NaN
      | Infinity s \<Rightarrow> Inr (Finite s 0 0)
      | Finite s m e \<Rightarrow>
          if m = 0 then Inl ZeroDivisionError
          else if 0 \<le> e then Inr (float_of_ratio s 1 (m * 2 ^ nat e))
          else Inr (float_of_ratio s (2 ^ nat (- e)) m))"

text \<open>\<open>int(x)\<close> truncates towards zero; an infinity raises \<open>OverflowError\<close>, a NaN
  \<open>ValueError\<close>.\<close>

definition py_int :: "pyfloat \<Rightarrow> py_error + int" where
  "py_int x =
     (case x of
        NaN \<Rightarrow> Inl ValueError
      | Infinity s \<Rightarrow> Inl OverflowError
      | Finite s m e \<Rightarrow>
          (let t = (if 0 \<le> e then int m * 2 ^ nat e else int m div 2 ^ nat (- e))
           in Inr (if s then - t else t)))"

text \<open>\<open>a % b\<close> on integers: the sign follows the divisor, as \<open>mod\<close> on \<open>int\<close> does;
  \<open>b = 0\<close> raises \<open>ZeroDivisionError\<close>.\<close>

definition py_mod :: "int \<Rightarrow> int \<Rightarrow> py_error + int" where
  "py_mod a b = (if b = 0 then Inl ZeroDivisionError else Inr (a mod b))"

section \<open>Configuration constants (bin/config.py)\<close>

definition MAX_FILE_SIZE_MB_DEFAULT :: int where
  "MAX_FILE_SIZE_MB_DEFAULT = 100"

definition MAX_FAILURES_DEFAULT :: int where
  "MAX_FAILURES_DEFAULT = 50"

definition MAX_MESSAGE_SIZE :: int where
  "MAX_MESSAGE_SIZE = 5000"

definition MAX_ERROR_LINES :: int where
  "MAX_ERROR_LINES = 10"

definition MAX_STRINGS_PER_EVENT :: int where
  "MAX_STRINGS_PER_EVENT = 20"

definition MAX_VARINT_BYTES :: int where
  "MAX_VARINT_BYTES = 10"

definition BUILDKITE_ANNOTATION_STYLE :: string where
  "BUILDKITE_ANNOTATION_STYLE = ''error''"

definition BUILDKITE_ANNOTATION_CONTEXT_FALLBACK :: string where
  "BUILDKITE_ANNOTATION_CONTEXT_FALLBACK = ''bazel-failures''"

definition ANNOTATION_RETRY_ATTEMPTS :: int where
  "ANNOTATION_RETRY_ATTEMPTS = 3"

definition ANNOTATION_RETRY_BASE_DELAY_SECONDS :: pyfloat where
  "ANNOTATION_RETRY_BASE_DELAY_SECONDS = Finite False 1 0"

section \<open>The varint encoder (utils/generate_large_bep_files.py)\<close>

text \<open>
  \<open>encode_varint\<close> appends to the list \<open>result\<close> while \<open>value >= 0x80\<close> and then
  appends the remaining value; \<open>bytes(result)\<close> raises \<open>ValueError\<close> unless every element
  is in \<open>range(0, 256)\<close>.
\<close>

function encode_varint_loop :: "int \<Rightarrow> int list \<Rightarrow> int list" where
  "encode_varint_loop value result =
     (if value \<ge> 0x80
      then encode_varint_loop (drop_bit 7 value) (result @ [(value AND 0x7F) OR 0x80])
      else result @ [value])"
  by pat_completeness auto
termination
  by (relation "measure (\<lambda>(value, result). nat value)") (auto simp: drop_bit_eq_div)

declare encode_varint_loop.simps [simp del]

definition py_bytes :: "int list \<Rightarrow> py_error + bytes" where
  "py_bytes xs =
     (if list_all (\<lambda>b. 0 \<le> b \<and> b < 256) xs then Inr (map char_of xs) else Inl ValueError)"

definition encode_varint :: "int \<Rightarrow> py_error + bytes" where
  "encode_varint value = py_bytes (encode_varint_loop value [])"

section \<open>String formatting\<close>

text \<open>The decimal digits of a natural number, as \<open>str\<close> and the \<open>d\<close> format print them.\<close>

definition digit_char :: "nat \<Rightarrow> char" where
  "digit_char d = char_of (48 + d)"

fun dec_nat :: "nat \<Rightarrow> string" where
  "dec_nat n = (if n < 10 then [digit_char n] else dec_nat (n div 10) @ [digit_char (n mod 10)])"

declare dec_nat.simps [simp del]

text \<open>\<open>f"{n}"\<close> for an integer \<open>n\<close>.\<close>

definition py_str_int :: "int \<Rightarrow> string" where
  "py_str_int n = (if n < 0 then ''-'' @ dec_nat (nat (- n)) else dec_nat (nat n))"

text \<open>\<open>f"{n:0wd}"\<close>: zeros are put between the sign and the digits up to width \<open>w\<close>.\<close>

definition py_format_0d :: "nat \<Rightarrow> int \<Rightarrow> string" where
  "py_format_0d w n =
     (let sign = (if n < 0 then ''-'' else []); digits = dec_nat (nat \<bar>n\<bar>)
      in sign @ replicate (w - length sign - length digits) (CHR ''0'') @ digits)"

text \<open>\<open>target_name.split(':')[0].lstrip('//')\<close>: the text before the first colon, without
  its leading slashes.\<close>

definition pkg_path_of :: "string \<Rightarrow> string" where
  "pkg_path_of target_name =
     dropWhile (\<lambda>c. c = CHR ''/'') (takeWhile (\<lambda>c. c \<noteq> CHR '':'') target_name)"

section \<open>Event messages (utils/generate_large_bep_files.py)\<close>

definition build_error_types :: "string \<Rightarrow> int \<Rightarrow> string list" where
  \<open>build_error_types pkg_path target_index =
     [ pkg_path @ ''/main.cpp:'' @ py_str_int (42 + target_index mod 100) @ '':''
         @ py_str_int (15 + target_index mod 20)
         @ '': error: use of undeclared identifier 'undefined_var_''
         @ py_str_int target_index @ [CHR 0x27],
       pkg_path @ ''/utils.h:'' @ py_str_int (25 + target_index mod 50)
         @ '':8: error: 'missing_function' was not declared in this scope'',
       pkg_path @ ''/parser.cc:'' @ py_str_int (78 + target_index mod 30)
         @ '':12: error: no matching function for call to 'parse_''
         @ py_str_int target_index @ [CHR 0x27],
       ''BUILD:'' @ py_str_int (10 + target_index mod 20)
         @ '':1: name 'undefined_dependency_''
         @ py_str_int target_index @ [CHR 0x27] @ '' is not defined'',
       pkg_path @ ''/config.py:'' @ py_str_int (33 + target_index mod 40)
         @ '':5: SyntaxError: invalid syntax near 'broken_code_''
         @ py_str_int target_index @ [CHR 0x27],
       pkg_path @ ''/lib.java:'' @ py_str_int (91 + target_index mod 60)
         @ '':20: error: cannot find symbol variable missing_var_''
         @ py_str_int target_index ]\<close>

definition create_build_event_message :: "string \<Rightarrow> bool \<Rightarrow> int \<Rightarrow> bytes" where
  \<open>create_build_event_message target_name success target_index =
     (if success then
        ''\<newline>{\<newline>  "id": {\<newline>    "targetCompleted": {\<newline>      "label": "''
        @ target_name
        @ ''"\<newline>    }\<newline>  },\<newline>  "completed": {\<newline>    "success": true\<newline>  }\<newline>}\<newline>''
      else
        (let pkg_path = pkg_path_of target_name;
             error_types = build_error_types pkg_path target_index;
             selected_error = error_types ! nat (target_index mod int (length error_types))
         in ''\<newline>{\<newline>  "id": {\<newline>    "targetCompleted": {\<newline>      "label": "''
            @ target_name
            @ ''"\<newline>    }\<newline>  },\<newline>  "completed": {\<newline>    "success": false\<newline>  },\<newline>  "aborted": {\<newline>    "reason": "BUILD_FAILED",\<newline>    "description": "''
            @ selected_error
            @ ''"\<newline>  }\<newline>}\<newline>''))\<close>

definition test_errors :: "string \<Rightarrow> int \<Rightarrow> string list" where
  \<open>test_errors pkg_path target_index =
     [ pkg_path @ ''/test_main.py:'' @ py_str_int (45 + target_index mod 80)
         @ '':12: AssertionError: Expected '' @ py_str_int (5 + target_index)
         @ '' but got '' @ py_str_int (3 + target_index),
       pkg_path @ ''/unit_tests.cpp:'' @ py_str_int (67 + target_index mod 60)
         @ '':8: EXPECT_EQ failed: expected value_'' @ py_str_int target_index
         @ '' == actual_value_'' @ py_str_int target_index,
       pkg_path @ ''/integration_test.java:'' @ py_str_int (89 + target_index mod 40)
         @ '':15: junit.framework.AssertionFailedError: Test failed at step ''
         @ py_str_int target_index,
       pkg_path @ ''/test_utils.go:'' @ py_str_int (23 + target_index mod 50)
         @ '':5: panic: runtime error: index out of range ['' @ py_str_int target_index
         @ '']'',
       pkg_path @ ''/spec_test.rb:'' @ py_str_int (56 + target_index mod 70)
         @ '':10: RSpec::Expectations::ExpectationNotMetError: expected behavior_''
         @ py_str_int target_index,
       pkg_path @ ''/test_runner.kt:'' @ py_str_int (34 + target_index mod 90)
         @ '':7: kotlin.test.AssertionError: Test '' @ py_str_int target_index
         @ '' assertion failed'' ]\<close>

definition create_test_event_message :: "string \<Rightarrow> bool \<Rightarrow> int \<Rightarrow> bytes" where
  \<open>create_test_event_message target_name success target_index =
     (if success then
        ''\<newline>{\<newline>  "id": {\<newline>    "testResult": {\<newline>      "label": "''
        @ target_name
        @ ''"\<newline>    }\<newline>  },\<newline>  "testResult": {\<newline>    "status": "PASSED"\<newline>  }\<newline>}\<newline>''
      else
        (let pkg_path = pkg_path_of target_name;
             errors = test_errors pkg_path target_index;
             selected_error = errors ! nat (target_index mod int (length errors))
         in ''\<newline>{\<newline>  "id": {\<newline>    "testResult": {\<newline>      "label": "''
            @ target_name
            @ ''"\<newline>    }\<newline>  },\<newline>  "testResult": {\<newline>    "status": "FAILED",\<newline>    "testAttemptDurationMillis": "1000"\<newline>  },\<newline>  "testFailureMessage": "''
            @ selected_error
            @ ''"\<newline>}\<newline>''))\<close>

section \<open>The generator (utils/generate_large_bep_files.py)\<close>

text \<open>
  \<open>generate_large_bep_file\<close> writes the output file; the model returns the bytes written,
  or the exception that leaves the function. Console output and timing are not modelled,
  and opening and writing the file are taken to succeed.
\<close>

text \<open>The default \<open>failure_rate: float = 0.05\<close>: the literal denotes the binary64 value
  nearest to \<open>1/20\<close>, which is \<open>0x1.999999999999ap-5\<close>.\<close>

definition default_failure_rate :: pyfloat where
  "default_failure_rate = Finite False 7205759403792794 (- 57)"

definition header_msg :: bytes where
  \<open>header_msg = ''{"started": {"uuid": "test-build-id", "startTime": {"seconds": 1642000000}}}''\<close>

text \<open>\<open>f.write(encode_varint(len(message)))\<close> followed by \<open>f.write(message)\<close>.\<close>

definition write_record :: "bytes \<Rightarrow> bytes \<Rightarrow> py_error + bytes" where
  "write_record f message =
     (case encode_varint (int (length message)) of
        Inl err \<Rightarrow> Inl err
      | Inr length_prefix \<Rightarrow> Inr (f @ length_prefix @ message))"

text \<open>\<open>(i % int(1 / failure_rate)) == 0 if failure_rate > 0 else False\<close>.\<close>

definition is_failure_at :: "pyfloat \<Rightarrow> int \<Rightarrow> py_error + bool" where
  "is_failure_at failure_rate i =
     (if float_gt_zero failure_rate then
        (case py_truediv_one failure_rate of
           Inl err \<Rightarrow> Inl err
         | Inr q \<Rightarrow>
             (case py_int q of
                Inl err \<Rightarrow> Inl err
              | Inr p \<Rightarrow>
                  (case py_mod i p of
                     Inl err \<Rightarrow> Inl err
                   | Inr r \<Rightarrow> Inr (r = 0))))
      else Inr False)"

definition target_name_at :: "int \<Rightarrow> string" where
  "target_name_at i =
     (let pkg_num = i div 50
      in ''//pkg'' @ py_format_0d 4 pkg_num @ '':target'' @ py_format_0d 6 i)"

definition target_message :: "int \<Rightarrow> bool \<Rightarrow> bytes" where
  "target_message i is_failure =
     (let target_name = target_name_at i
      in if i mod 2 = 0 then create_build_event_message target_name (\<not> is_failure) i
         else create_test_event_message target_name (\<not> is_failure) i)"

record gen_state =
  written :: bytes
  num_failures :: int

text \<open>The body of \<open>for i in range(num_targets)\<close>, over the indices still to come.\<close>

fun target_loop :: "pyfloat \<Rightarrow> int list \<Rightarrow> gen_state \<Rightarrow> py_error + gen_state" where
  "target_loop failure_rate [] st = Inr st"
| "target_loop failure_rate (i # rest) st =
     (case is_failure_at failure_rate i of
        Inl err \<Rightarrow> Inl err
      | Inr is_failure \<Rightarrow>
          (let n = (if is_failure then num_failures st + 1 else num_failures st)
           in case write_record (written st) (target_message i is_failure) of
                Inl err \<Rightarrow> Inl err
              | Inr f \<Rightarrow> target_loop failure_rate rest \<lparr>written = f, num_failures = n\<rparr>))"

definition completion_msg :: "int \<Rightarrow> bytes" where
  \<open>completion_msg n =
     ''{"finished": {"exitCode": {"code": '' @ (if n > 0 then ''1'' else ''0'') @ ''}}}''\<close>

definition py_range :: "int \<Rightarrow> int list" where
  "py_range n = map int [0..<nat n]"

definition generate_large_bep_file :: "int \<Rightarrow> pyfloat \<Rightarrow> py_error + bytes" where
  "generate_large_bep_file num_targets failure_rate =
     (case write_record [] header_msg of
        Inl err \<Rightarrow> Inl err
      | Inr f \<Rightarrow>
          (case target_loop failure_rate (py_range num_targets) \<lparr>written = f, num_failures = 0\<rparr> of
             Inl err \<Rightarrow> Inl err
           | Inr st \<Rightarrow> write_record (written st) (completion_msg (num_failures st))))"

section \<open>The record reader of the specification\<close>

text \<open>
  The analyzer itself (\<open>bin/bazel_failure_analyzer\<close>) is not among the source files; only
  its configuration constants and its tests are. The reader side is therefore written
  from the specification's contracts (sections 4.1, 4.2, 4.5, 6 and 7).
\<close>

datatype varint_error = MalformedVarint

text \<open>Modelled from the spec: the VarintReader (section 4.1), which is missing from the
  source files. \<open>readVarint(cursor) -> (value, bytesConsumed)\<close> takes seven value bits per
  byte, least significant group first, up to a byte without the continuation bit. It
  fails with \<open>MalformedVarint\<close> when more than \<open>max_cont\<close> continuation bytes are seen
  before a terminating byte, when the bytes run out inside the varint, and when the value
  is wider than 64 bits. \<open>seen\<close> counts the bytes consumed so far.\<close>

fun readVarint_from :: "nat \<Rightarrow> nat \<Rightarrow> nat \<Rightarrow> nat \<Rightarrow> bytes \<Rightarrow> varint_error + (nat \<times> nat)" where
  "readVarint_from max_cont seen shift acc [] = Inl MalformedVarint"
| "readVarint_from max_cont seen shift acc (c # cs) =
     (let b = (of_char c :: nat); acc' = acc + (b mod 128) * 2 ^ shift
      in if b < 128 then (if acc' < 2 ^ 64 then Inr (acc', seen + 1) else Inl MalformedVarint)
         else if max_cont \<le> seen then Inl MalformedVarint
         else readVarint_from max_cont (seen + 1) (shift + 7) acc' cs)"

definition readVarint :: "nat \<Rightarrow> bytes \<Rightarrow> varint_error + (nat \<times> nat)" where
  "readVarint max_cont cursor = readVarint_from max_cont 0 0 0 cursor"


record RawRecord =
  payload :: bytes
  ordinal :: nat





section \<open>The analysis pass of the specification\<close>

datatype failure_kind = Build | Test | Other

record location =
  path :: string
  line :: nat
  column :: "nat option"

record ClassifiedFailure =
  targetLabel :: string
  kind :: failure_kind
  message :: string
  location :: "location option"
  recordIndex :: nat

record failure_set =
  kept :: "ClassifiedFailure list"
  totalFailuresSeen :: nat
  truncated :: bool






record run_result =
  exit_code :: int
  stderr :: string
  result :: "failure_set option"


section \<open>Notions used in the statements\<close>

text \<open>
  The location grammar \<open>path:line:column:\<close> of the failure classifier: a path of filename
  characters, then a decimal line and a decimal column, each followed by a colon.
\<close>

definition is_digit :: "char \<Rightarrow> bool" where
  "is_digit c = (c \<in> set ''0123456789'')"

definition is_filename_char :: "char \<Rightarrow> bool" where
  "is_filename_char c =
     (c \<in> set ''abcdefghijklmnopqrstuvwxyzABCDEFGHIJKLMNOPQRSTUVWXYZ0123456789_./-'')"

definition has_location :: "string \<Rightarrow> bool" where
  "has_location s =
     (\<exists>before p l c after.
        s = before @ p @ '':'' @ l @ '':'' @ c @ '':'' @ after \<and>
        p \<noteq> [] \<and> list_all is_filename_char p \<and>
        l \<noteq> [] \<and> list_all is_digit l \<and>
        c \<noteq> [] \<and> list_all is_digit c)"

text \<open>
  The encoding as a function of the natural number encoded: seven value bits per byte,
  least significant group first, bit \<open>0x80\<close> on every byte but the last.
\<close>

fun varint :: "nat \<Rightarrow> bytes" where
  "varint n = (if n < 128 then [char_of n] else char_of (n mod 128 + 128) # varint (n div 128))"

declare varint.simps [simp del]

definition continuation_bit :: "char \<Rightarrow> bool" where
  "continuation_bit c = ((of_char c :: nat) AND 0x80 \<noteq> 0)"

text \<open>Decoding without any limit: what the bytes of a varint denote.\<close>

fun varint_value :: "bytes \<Rightarrow> nat" where
  "varint_value [] = 0"
| "varint_value (c # cs) = of_char c mod 128 + 128 * varint_value cs"

text \<open>One record of the stream: the varint of the payload's length, then the payload.\<close>

definition frame :: "bytes \<Rightarrow> bytes" where
  "frame p = varint (length p) @ p"

text \<open>Index \<open>i\<close> is marked failing: \<open>is_failure\<close> is computed and is \<open>True\<close>.\<close>

definition marked :: "pyfloat \<Rightarrow> int \<Rightarrow> bool" where
  "marked failure_rate i = (is_failure_at failure_rate i = Inr True)"

text \<open>The payloads the generator emits when index \<open>i\<close> is marked exactly if \<open>b i\<close>: the
  header, one event per index, and the completion event.\<close>

definition emitted :: "(int \<Rightarrow> bool) \<Rightarrow> int \<Rightarrow> bytes list" where
  "emitted b num_targets =
     header_msg # map (\<lambda>i. target_message i (b i)) (py_range num_targets)
       @ [completion_msg (int (length (filter b (py_range num_targets))))]"

text \<open>The records a reader yields for the payloads \<open>ps\<close>, numbered from \<open>idx\<close>.\<close>

definition numbered :: "nat \<Rightarrow> bytes list \<Rightarrow> RawRecord list" where
  "numbered idx ps = map2 (\<lambda>p k. \<lparr>payload = p, ordinal = k\<rparr>) ps [idx..<idx + length ps]"


section \<open>The encoder: basic facts\<close>

lemma take_bit_or_exp: "take_bit n v OR 2 ^ n = take_bit n v + (2 ^ n :: int)"
  by (rule disjunctive_add [symmetric]) (auto simp: bit_take_bit_iff bit_exp_iff)

lemma encode_step_low: "(v AND 0x7F) OR 0x80 = v mod 128 + (128::int)"
proof -
  have a: "v AND 0x7F = take_bit 7 v"
    by (simp add: take_bit_eq_mask mask_eq_exp_minus_1)
  show ?thesis using a take_bit_or_exp [of 7 v] by (simp add: take_bit_eq_mod)
qed

lemma encode_varint_loop_nat:
  "encode_varint_loop (int n) acc = acc @ map (\<lambda>c. int (of_char c)) (varint n)"
proof (induction n arbitrary: acc rule: varint.induct)
  case (1 n)
  show ?case
  proof (cases "n < 128")
    case True
    then show ?thesis
      by (subst encode_varint_loop.simps, subst varint.simps) simp
  next
    case False
    have d: "drop_bit 7 (int n) = int (n div 128)"
      by (simp add: drop_bit_eq_div zdiv_int)
    have l: "(int n AND 0x7F) OR 0x80 = int (n mod 128 + 128)"
      using encode_step_low [of "int n"] by (simp add: zmod_int)
    have m: "(n mod 128 + 128) mod 256 = n mod 128 + 128"
      by (rule mod_less) (simp add: less_diff_conv [symmetric])
    from False show ?thesis
      by (subst encode_varint_loop.simps, subst varint.simps)
         (simp add: d l "1.IH" [OF False] m del: of_nat_add)
  qed
qed

lemma continuation_bit_iff: "continuation_bit c \<longleftrightarrow> 128 \<le> (of_char c :: nat)"
proof -
  have lt: "(of_char c :: nat) < 256" by (rule nat_of_char_less_256)
  have "continuation_bit c \<longleftrightarrow> bit (of_char c :: nat) 7"
    using and_exp_eq_0_iff_not_bit [of "of_char c :: nat" 7] by (simp add: continuation_bit_def)
  also have "\<dots> \<longleftrightarrow> odd ((of_char c :: nat) div 128)"
    by (simp add: bit_nat_def)
  also have "\<dots> \<longleftrightarrow> 128 \<le> (of_char c :: nat)"
  proof (cases "128 \<le> (of_char c :: nat)")
    case True
    with lt have "(of_char c :: nat) div 128 = 1" by (intro div_nat_eqI) simp_all
    with True show ?thesis by simp
  next
    case False
    then have "(of_char c :: nat) div 128 = 0" by simp
    with False show ?thesis by simp
  qed
  finally show ?thesis .
qed

lemma continuation_bit_char_of:
  "n < 256 \<Longrightarrow> continuation_bit (char_of n) \<longleftrightarrow> 128 \<le> (n::nat)"
  by (simp add: continuation_bit_iff)

lemma encode_varint_nat: "encode_varint (int n) = Inr (varint n)"
proof -
  have "list_all (\<lambda>b. 0 \<le> b \<and> b < 256) (map (\<lambda>c. int (of_char c)) cs)" for cs :: bytes
    by (induction cs) (simp_all add: nat_of_char_less_256)
  moreover have "map char_of (map (\<lambda>c. int (of_char c)) cs) = cs" for cs :: bytes
    by (induction cs) simp_all
  ultimately show ?thesis
    using encode_varint_loop_nat [of n "[]"] by (simp add: encode_varint_def py_bytes_def)
qed

lemma encode_varint_nonneg: "0 \<le> v \<Longrightarrow> encode_varint v = Inr (varint (nat v))"
  using encode_varint_nat [of "nat v"] by simp

lemma encode_varint_negative: "v < 0 \<Longrightarrow> encode_varint v = Inl ValueError"
  by (simp add: encode_varint_def py_bytes_def encode_varint_loop.simps)

lemma varint_nonempty: "varint n \<noteq> []"
  by (subst varint.simps) simp

lemma varint_structure:
  "list_all continuation_bit (butlast (varint n)) \<and> \<not> continuation_bit (last (varint n))"
proof (induction n rule: varint.induct)
  case (1 n)
  show ?case
  proof (cases "n < 128")
    case True
    then show ?thesis
      by (subst (1 2) varint.simps) (simp add: continuation_bit_char_of)
  next
    case False
    have "n mod 128 + 128 < 256"
      by (simp add: less_diff_conv [symmetric])
    then have "continuation_bit (char_of (n mod 128 + 128))"
      by (simp add: continuation_bit_char_of)
    with False "1.IH" show ?thesis
      by (subst (1 2) varint.simps) (simp add: varint_nonempty)
  qed
qed

lemma varint_value_varint: "varint_value (varint n) = n"
proof (induction n rule: varint.induct)
  case (1 n)
  show ?case
  proof (cases "n < 128")
    case True
    then show ?thesis by (subst varint.simps) simp
  next
    case False
    have m: "(n mod 128 + 128) mod 256 = n mod 128 + 128"
      by (rule mod_less) (simp add: less_diff_conv [symmetric])
    from False "1.IH" show ?thesis
      by (subst varint.simps) (simp add: m)
  qed
qed

lemma length_varint_le: "0 < k \<Longrightarrow> n < 2 ^ (7 * k) \<Longrightarrow> length (varint n) \<le> k"
proof (induction n arbitrary: k rule: varint.induct)
  case (1 n)
  show ?case
  proof (cases "n < 128")
    case True
    with "1.prems" show ?thesis by (subst varint.simps) simp
  next
    case False
    from "1.prems" obtain j where k: "k = Suc j" by (cases k) auto
    from False "1.prems" k have "0 < j"
      by (cases j) auto
    moreover from "1.prems" k have "n div 128 < 2 ^ (7 * j)"
      by (simp add: less_mult_imp_div_less power_add mult.commute)
    ultimately have "length (varint (n div 128)) \<le> j"
      using "1.IH" [OF False] by blast
    with False k show ?thesis by (subst varint.simps) simp
  qed
qed

lemma readVarint_from_varint:
  "seen \<le> k \<Longrightarrow>
   readVarint_from k seen shift acc (varint n @ rest) =
     (if seen + length (varint n) \<le> k + 1 \<and> acc + n * 2 ^ shift < 2 ^ 64
      then Inr (acc + n * 2 ^ shift, seen + length (varint n))
      else Inl MalformedVarint)"
proof (induction n arbitrary: seen shift acc rule: varint.induct)
  case (1 n)
  show ?case
  proof (cases "n < 128")
    case True
    with "1.prems" show ?thesis by (subst (1 2 3) varint.simps) (simp add: Let_def)
  next
    case False
    have m: "(n mod 128 + 128) mod 256 = n mod 128 + 128"
      by (rule mod_less) (simp add: less_diff_conv [symmetric])
    have split: "acc + n mod 128 * 2 ^ shift + n div 128 * 2 ^ (shift + 7) = acc + n * 2 ^ shift"
    proof -
      have "n * 2 ^ shift = (n mod 128 + n div 128 * 128) * 2 ^ shift"
        by simp
      also have "\<dots> = n mod 128 * 2 ^ shift + n div 128 * 2 ^ (shift + 7)"
        unfolding add_mult_distrib power_add by (simp add: algebra_simps)
      finally show ?thesis by simp
    qed
    show ?thesis
    proof (cases "k \<le> seen")
      case True
      with False show ?thesis
        using varint_nonempty [of "n div 128"]
        by (subst (1 2 3) varint.simps) (cases "varint (n div 128)"; simp add: Let_def m)
    next
      case False
      then have "seen + 1 \<le> k" by simp
      from "1.IH" [OF \<open>\<not> n < 128\<close> this] \<open>\<not> n < 128\<close> False show ?thesis
        by (subst (1 2 3) varint.simps) (simp add: Let_def m split)
    qed
  qed
qed

lemma readVarint_varint:
  "readVarint k (varint n @ rest) =
     (if length (varint n) \<le> k + 1 \<and> n < 2 ^ 64 then Inr (n, length (varint n))
      else Inl MalformedVarint)"
  using readVarint_from_varint [of 0 k 0 0 n rest] by (simp add: readVarint_def)

section \<open>Decimal formatting\<close>

lemma digit_char_is_digit: "d < 10 \<Longrightarrow> is_digit (digit_char d)"
proof -
  assume "d < 10"
  then have "d \<in> {0, 1, 2, 3, 4, 5, 6, 7, 8, 9}" by auto
  then show ?thesis
    by (auto simp: is_digit_def digit_char_def char_of_eq_iff)
qed

lemma dec_nat_digits: "dec_nat n \<noteq> [] \<and> list_all is_digit (dec_nat n)"
proof (induction n rule: dec_nat.induct)
  case (1 n)
  show ?case
  proof (cases "n < 10")
    case True
    then show ?thesis
      by (subst (1 2) dec_nat.simps) (simp add: digit_char_is_digit)
  next
    case False
    with "1.IH" show ?thesis
      by (subst (1 2) dec_nat.simps) (simp add: digit_char_is_digit)
  qed
qed

lemma py_str_int_digits:
  "0 \<le> n \<Longrightarrow> py_str_int n \<noteq> [] \<and> list_all is_digit (py_str_int n)"
  using dec_nat_digits [of "nat n"] by (simp add: py_str_int_def)

section \<open>Locations in the failure messages\<close>

lemma has_location_intro:
  assumes "p \<noteq> []" "list_all is_filename_char p" "l \<noteq> []" "list_all is_digit l"
    "c \<noteq> []" "list_all is_digit c"
  shows "has_location (before @ p @ '':'' @ l @ '':'' @ c @ '':'' @ after)"
  unfolding has_location_def using assms by blast

lemma has_location_embed: "has_location e \<Longrightarrow> has_location (a @ e @ b)"
proof -
  assume "has_location e"
  then obtain before p l c after where e: "e = before @ p @ '':'' @ l @ '':'' @ c @ '':'' @ after"
    and ok: "p \<noteq> []" "list_all is_filename_char p" "l \<noteq> []" "list_all is_digit l"
      "c \<noteq> []" "list_all is_digit c"
    unfolding has_location_def by blast
  have "a @ e @ b = (a @ before) @ p @ '':'' @ l @ '':'' @ c @ '':'' @ (after @ b)"
    by (simp add: e)
  then show ?thesis
    using has_location_intro [OF ok, of "a @ before" "after @ b"] by simp
qed

lemma build_errors_located:
  assumes "k < 6"
  shows "has_location (build_error_types pkg_path target_index ! k)"
proof -
  have line: "0 \<le> a \<Longrightarrow> 0 < m \<Longrightarrow> py_str_int (a + target_index mod m) \<noteq> [] \<and>
      list_all is_digit (py_str_int (a + target_index mod m))" for a m :: int
    by (rule py_str_int_digits) (simp add: add_nonneg_nonneg)
  have col: "list_all is_digit ''8''" "list_all is_digit ''12''" "list_all is_digit ''1''"
    "list_all is_digit ''5''" "list_all is_digit ''20''"
    by (simp_all add: is_digit_def)
  have f: "list_all is_filename_char ''main.cpp''" "list_all is_filename_char ''utils.h''"
    "list_all is_filename_char ''parser.cc''" "list_all is_filename_char ''BUILD''"
    "list_all is_filename_char ''config.py''" "list_all is_filename_char ''lib.java''"
    by (simp_all add: is_filename_char_def)
  from assms consider "k = 0" | "k = 1" | "k = 2" | "k = 3" | "k = 4" | "k = 5"
    by linarith
  then show ?thesis
  proof cases
    case 1
    then show ?thesis
      using has_location_intro [of "''main.cpp''" "py_str_int (42 + target_index mod 100)"
          "py_str_int (15 + target_index mod 20)" "pkg_path @ ''/''"] line f
      by (simp add: build_error_types_def)
  next
    case 2
    then show ?thesis
      using has_location_intro [of "''utils.h''" "py_str_int (25 + target_index mod 50)"
          "''8''" "pkg_path @ ''/''"] line f col
      by (simp add: build_error_types_def)
  next
    case 3
    then show ?thesis
      using has_location_intro [of "''parser.cc''" "py_str_int (78 + target_index mod 30)"
          "''12''" "pkg_path @ ''/''"] line f col
      by (simp add: build_error_types_def)
  next
    case 4
    then show ?thesis
      using has_location_intro [of "''BUILD''" "py_str_int (10 + target_index mod 20)"
          "''1''" "[]"] line f col
      by (simp add: build_error_types_def)
  next
    case 5
    then show ?thesis
      using has_location_intro [of "''config.py''" "py_str_int (33 + target_index mod 40)"
          "''5''" "pkg_path @ ''/''"] line f col
      by (simp add: build_error_types_def)
  next
    case 6
    then show ?thesis
      using has_location_intro [of "''lib.java''" "py_str_int (91 + target_index mod 60)"
          "''20''" "pkg_path @ ''/''"] line f col
      by (simp add: build_error_types_def)
  qed
qed

lemma test_errors_located:
  assumes "k < 6"
  shows "has_location (test_errors pkg_path target_index ! k)"
proof -
  have line: "0 \<le> a \<Longrightarrow> 0 < m \<Longrightarrow> py_str_int (a + target_index mod m) \<noteq> [] \<and>
      list_all is_digit (py_str_int (a + target_index mod m))" for a m :: int
    by (rule py_str_int_digits) (simp add: add_nonneg_nonneg)
  have col: "list_all is_digit ''12''" "list_all is_digit ''8''" "list_all is_digit ''15''"
    "list_all is_digit ''5''" "list_all is_digit ''10''" "list_all is_digit ''7''"
    by (simp_all add: is_digit_def)
  have f: "list_all is_filename_char ''test_main.py''"
    "list_all is_filename_char ''unit_tests.cpp''"
    "list_all is_filename_char ''integration_test.java''"
    "list_all is_filename_char ''test_utils.go''"
    "list_all is_filename_char ''spec_test.rb''"
    "list_all is_filename_char ''test_runner.kt''"
    by (simp_all add: is_filename_char_def)
  from assms consider "k = 0" | "k = 1" | "k = 2" | "k = 3" | "k = 4" | "k = 5"
    by linarith
  then show ?thesis
  proof cases
    case 1
    then show ?thesis
      using has_location_intro [of "''test_main.py''" "py_str_int (45 + target_index mod 80)"
          "''12''" "pkg_path @ ''/''"] line f col
      by (simp add: test_errors_def)
  next
    case 2
    then show ?thesis
      using has_location_intro [of "''unit_tests.cpp''" "py_str_int (67 + target_index mod 60)"
          "''8''" "pkg_path @ ''/''"] line f col
      by (simp add: test_errors_def)
  next
    case 3
    then show ?thesis
      using has_location_intro [of "''integration_test.java''"
          "py_str_int (89 + target_index mod 40)" "''15''" "pkg_path @ ''/''"] line f col
      by (simp add: test_errors_def)
  next
    case 4
    then show ?thesis
      using has_location_intro [of "''test_utils.go''" "py_str_int (23 + target_index mod 50)"
          "''5''" "pkg_path @ ''/''"] line f col
      by (simp add: test_errors_def)
  next
    case 5
    then show ?thesis
      using has_location_intro [of "''spec_test.rb''" "py_str_int (56 + target_index mod 70)"
          "''10''" "pkg_path @ ''/''"] line f col
      by (simp add: test_errors_def)
  next
    case 6
    then show ?thesis
      using has_location_intro [of "''test_runner.kt''" "py_str_int (34 + target_index mod 90)"
          "''7''" "pkg_path @ ''/''"] line f col
      by (simp add: test_errors_def)
  qed
qed

lemma length_build_error_types: "length (build_error_types pkg_path target_index) = 6"
  by (simp add: build_error_types_def)

lemma length_test_errors: "length (test_errors pkg_path target_index) = 6"
  by (simp add: test_errors_def)

lemma selected_index: "nat (target_index mod 6) < 6"
  by (simp add: nat_less_iff)

lemma has_location_embed2: "has_location e \<Longrightarrow> has_location (a @ n @ b @ e @ c)"
  using has_location_embed [of e "a @ n @ b" c] by simp

lemma build_failure_has_location:
  "has_location (create_build_event_message target_name False target_index)"
  unfolding create_build_event_message_def Let_def length_build_error_types
  by (simp only: if_False of_nat_numeral)
     (intro has_location_embed2 build_errors_located selected_index)

lemma test_failure_has_location:
  "has_location (create_test_event_message target_name False target_index)"
  unfolding create_test_event_message_def Let_def length_test_errors
  by (simp only: if_False of_nat_numeral)
     (intro has_location_embed2 test_errors_located selected_index)





section \<open>Marker tokens in the build messages\<close>









section \<open>The generator loop\<close>

lemma write_record_frame: "write_record f p = Inr (f @ frame p)"
  by (simp add: write_record_def encode_varint_nat frame_def)

lemma target_loop_events:
  assumes "\<And>i. i \<in> set indices \<Longrightarrow> is_failure_at failure_rate i = Inr (b i)"
  shows "target_loop failure_rate indices st =
     Inr \<lparr>written = written st @ concat (map (\<lambda>i. frame (target_message i (b i))) indices),
          num_failures = num_failures st + int (length (filter b indices))\<rparr>"
  using assms
proof (induction indices arbitrary: st)
  case Nil
  then show ?case by simp
next
  case (Cons i rest)
  have here: "is_failure_at failure_rate i = Inr (b i)"
    by (rule Cons.prems) simp
  have later: "target_loop failure_rate rest st' =
      Inr \<lparr>written = written st' @ concat (map (\<lambda>i. frame (target_message i (b i))) rest),
           num_failures = num_failures st' + int (length (filter b rest))\<rparr>" for st'
    by (rule Cons.IH) (simp add: Cons.prems)
  show ?case
    by (simp add: here write_record_frame later Let_def)
qed

lemma target_loop_returns:
  assumes "target_loop failure_rate indices st = Inr st'" and "i \<in> set indices"
  shows "\<exists>b. is_failure_at failure_rate i = Inr b"
  using assms
proof (induction indices arbitrary: st)
  case Nil
  then show ?case by simp
next
  case (Cons j rest)
  from Cons.prems(1) obtain b where b: "is_failure_at failure_rate j = Inr b"
    by (cases "is_failure_at failure_rate j") auto
  show ?case
  proof (cases "i = j")
    case True
    with b show ?thesis by blast
  next
    case False
    with Cons.prems(2) have "i \<in> set rest" by simp
    moreover from Cons.prems(1) b obtain st'' where "target_loop failure_rate rest st'' = Inr st'"
      by (auto simp: write_record_frame Let_def)
    ultimately show ?thesis by (rule Cons.IH [rotated])
  qed
qed

lemma is_failure_at_marked:
  "is_failure_at failure_rate i = Inr b \<Longrightarrow> is_failure_at failure_rate i = Inr (marked failure_rate i)"
  by (simp add: marked_def)

lemma generate_events:
  assumes "\<And>i. i \<in> set (py_range num_targets) \<Longrightarrow> is_failure_at failure_rate i = Inr (b i)"
  shows "generate_large_bep_file num_targets failure_rate =
           Inr (concat (map frame (emitted b num_targets)))"
  by (simp add: generate_large_bep_file_def write_record_frame target_loop_events [OF assms]
      emitted_def comp_def)

lemma generate_returns:
  assumes "generate_large_bep_file num_targets failure_rate = Inr out"
  shows "out = concat (map frame (emitted (marked failure_rate) num_targets))"
proof -
  from assms obtain st where
    "target_loop failure_rate (py_range num_targets)
       \<lparr>written = frame header_msg, num_failures = 0\<rparr> = Inr st"
    by (auto simp: generate_large_bep_file_def write_record_frame split: sum.splits)
  then have "\<exists>b. is_failure_at failure_rate i = Inr b" if "i \<in> set (py_range num_targets)" for i
    using that by (rule target_loop_returns)
  then have "is_failure_at failure_rate i = Inr (marked failure_rate i)"
    if "i \<in> set (py_range num_targets)" for i
    using that is_failure_at_marked by blast
  from generate_events [of num_targets failure_rate "marked failure_rate", OF this] assms
  show ?thesis by simp
qed


lemma is_failure_at_not_positive:
  "\<not> float_gt_zero failure_rate \<Longrightarrow> is_failure_at failure_rate i = Inr False"
  by (simp add: is_failure_at_def)

lemma is_failure_at_period:
  assumes "float_gt_zero failure_rate" and "py_truediv_one failure_rate = Inr q"
    and "py_int q = Inr p" and "p \<noteq> 0"
  shows "is_failure_at failure_rate i = Inr (i mod p = 0)"
  using assms by (simp add: is_failure_at_def py_mod_def)

lemma is_failure_at_zero: "is_failure_at (Finite s 0 e) i = Inr False"
  by (simp add: is_failure_at_def float_gt_zero_def)

lemma emitted_no_failures:
  "emitted (\<lambda>i. False) num_targets =
     header_msg # map (\<lambda>i. target_message i False) (py_range num_targets) @ [completion_msg 0]"
  by (simp add: emitted_def)

section \<open>Float division\<close>

lemma ge_pow2_real:
  assumes "0 < d"
  shows "ge_pow2 n d k \<longleftrightarrow> 2 powi k \<le> real n / real d"
proof (cases "0 \<le> k")
  case True
  have "d * 2 ^ nat k \<le> n \<longleftrightarrow> real (d * 2 ^ nat k) \<le> real n"
    by (simp only: of_nat_le_iff)
  also have "\<dots> \<longleftrightarrow> 2 ^ nat k \<le> real n / real d"
    using assms by (simp add: pos_le_divide_eq mult.commute)
  finally show ?thesis
    using True by (simp add: ge_pow2_def power_int_def)
next
  case False
  have "d \<le> n * 2 ^ nat (- k) \<longleftrightarrow> real d \<le> real (n * 2 ^ nat (- k))"
    by (simp only: of_nat_le_iff)
  also have "\<dots> \<longleftrightarrow> inverse 2 ^ nat (- k) \<le> real n / real d"
    using assms by (simp add: field_simps)
  finally show ?thesis
    using False by (simp add: ge_pow2_def power_int_def)
qed

lemma floorlog2_real:
  assumes "0 < n"
  shows "2 powi (int (floorlog 2 n) - 1) \<le> real n" and "real n < 2 powi int (floorlog 2 n)"
proof -
  from assms have b: "2 ^ (floorlog 2 n - 1) \<le> n" "n < 2 ^ floorlog 2 n"
    using floorlog_bounds [of n 2] by simp_all
  from assms have "floorlog 2 n \<noteq> 0"
    by (simp add: floorlog_eq_zero_iff)
  then have pos: "0 < floorlog 2 n" by simp
  then have "int (floorlog 2 n) - 1 = int (floorlog 2 n - 1)" by simp
  then have "2 powi (int (floorlog 2 n) - 1) = (2::real) ^ (floorlog 2 n - 1)"
    by (simp only: power_int_of_nat)
  also have "\<dots> = real (2 ^ (floorlog 2 n - 1))" by simp
  also have "\<dots> \<le> real n" using b(1) by (simp only: of_nat_le_iff)
  finally show "2 powi (int (floorlog 2 n) - 1) \<le> real n" .
  have "real n < real (2 ^ floorlog 2 n)" using b(2) by (simp only: of_nat_less_iff)
  then show "real n < 2 powi int (floorlog 2 n)" by simp
qed

lemma ilog2_ratio_bounds:
  assumes "0 < n" and "0 < d"
  shows "2 powi (ilog2_ratio n d) \<le> real n / real d"
    and "real n / real d < 2 powi (ilog2_ratio n d + 1)"
proof -
  define bn where "bn = int (floorlog 2 n)"
  define bd where "bd = int (floorlog 2 d)"
  have n: "2 powi (bn - 1) \<le> real n" "real n < 2 powi bn"
    using floorlog2_real [OF assms(1)] by (simp_all add: bn_def)
  have d: "2 powi (bd - 1) \<le> real d" "real d < 2 powi bd"
    using floorlog2_real [OF assms(2)] by (simp_all add: bd_def)
  have upper: "real n / real d < 2 powi (bn - bd + 1)"
  proof -
    have "real n / real d < 2 powi bn / 2 powi (bd - 1)"
      using n(2) d(1) assms by (intro frac_less) simp_all
    also have "\<dots> = 2 powi (bn - (bd - 1))"
      by (simp add: power_int_diff)
    finally show ?thesis by (simp add: algebra_simps)
  qed
  have lower: "2 powi (bn - bd - 1) < real n / real d"
  proof -
    have "2 powi (bn - 1 - bd) = 2 powi (bn - 1) / (2 powi bd :: real)"
      by (simp add: power_int_diff)
    also have "\<dots> < real n / real d"
      using n(1) d(2) assms by (intro frac_less2) simp_all
    finally show ?thesis by (simp add: algebra_simps)
  qed
  show "2 powi (ilog2_ratio n d) \<le> real n / real d"
    using lower ge_pow2_real [OF assms(2), of n "bn - bd"]
    by (auto simp: ilog2_ratio_def Let_def bn_def bd_def)
  show "real n / real d < 2 powi (ilog2_ratio n d + 1)"
    using upper ge_pow2_real [OF assms(2), of n "bn - bd"]
    by (auto simp: ilog2_ratio_def Let_def bn_def bd_def)
qed


lemma ilog2_ratio_nonneg:
  assumes "0 < d" and "d \<le> n"
  shows "0 \<le> ilog2_ratio n d"
proof (rule ccontr)
  assume "\<not> 0 \<le> ilog2_ratio n d"
  then have "ilog2_ratio n d + 1 \<le> 0" by simp
  then have "2 powi (ilog2_ratio n d + 1) \<le> (2::real) powi 0"
    by (intro power_int_increasing) simp_all
  moreover from assms have "0 < n" by simp
  ultimately have "real n / real d < 1"
    using ilog2_ratio_bounds(2) [OF _ assms(1), of n] by simp
  with assms show False by simp
qed

lemma ilog2_ratio_nat:
  assumes "0 < d" and "d \<le> n"
  shows "d * 2 ^ nat (ilog2_ratio n d) \<le> n" and "n < d * 2 ^ (nat (ilog2_ratio n d) + 1)"
proof -
  from assms have n: "0 < n" by simp
  have k: "0 \<le> ilog2_ratio n d" using assms by (rule ilog2_ratio_nonneg)
  have "ge_pow2 n d (ilog2_ratio n d)"
    using ilog2_ratio_bounds(1) [OF n assms(1)] by (simp add: ge_pow2_real [OF assms(1)])
  with k show "d * 2 ^ nat (ilog2_ratio n d) \<le> n"
    by (simp add: ge_pow2_def)
  have "\<not> ge_pow2 n d (ilog2_ratio n d + 1)"
    using ilog2_ratio_bounds(2) [OF n assms(1)] by (simp add: ge_pow2_real [OF assms(1)])
  with k show "n < d * 2 ^ (nat (ilog2_ratio n d) + 1)"
    by (simp add: ge_pow2_def nat_add_distrib)
qed

lemma round_half_even_bounds:
  "n div d \<le> round_half_even n d" "round_half_even n d \<le> n div d + 1"
  by (simp_all add: round_half_even_def Let_def)

lemma round_half_even_scaled:
  assumes "0 < b" and "2 ^ c * b \<le> a" and "a < 2 ^ (c + 1) * b"
  shows "2 ^ c \<le> round_half_even a b \<and> round_half_even a b \<le> 2 ^ (c + 1)"
proof -
  from assms(1,2) have "2 ^ c \<le> a div b"
    by (simp add: less_eq_div_iff_mult_less_eq)
  then have "2 ^ c \<le> round_half_even a b"
    using round_half_even_bounds(1) [of a b] by (rule order_trans)
  moreover from assms(1,3) have "a div b < 2 ^ (c + 1)"
    by (simp only: div_less_iff_less_mult)
  then have "round_half_even a b \<le> 2 ^ (c + 1)"
    using round_half_even_bounds(2) [of a b] by linarith
  ultimately show ?thesis ..
qed

lemma scaled_mantissa_bounds:
  assumes "0 < d" and "d * 2 ^ K \<le> n" and "n < d * 2 ^ (K + 1)"
  shows "c \<le> K \<Longrightarrow> 2 ^ c \<le> round_half_even n (d * 2 ^ (K - c)) \<and>
                  round_half_even n (d * 2 ^ (K - c)) \<le> 2 ^ (c + 1)"
    and "K < c \<Longrightarrow> 2 ^ c \<le> round_half_even (n * 2 ^ (c - K)) d \<and>
                  round_half_even (n * 2 ^ (c - K)) d \<le> 2 ^ (c + 1)"
proof -
  assume c: "c \<le> K"
  then have e: "(2::nat) ^ K = 2 ^ c * 2 ^ (K - c)"
    by (simp add: power_add [symmetric])
  have "2 ^ c * (d * 2 ^ (K - c)) \<le> n"
    using assms(2) by (simp add: e mult_ac)
  moreover have "n < 2 ^ (c + 1) * (d * 2 ^ (K - c))"
    using assms(3) by (simp add: e mult_ac)
  moreover have "0 < d * 2 ^ (K - c)" using assms(1) by simp
  ultimately show "2 ^ c \<le> round_half_even n (d * 2 ^ (K - c)) \<and>
      round_half_even n (d * 2 ^ (K - c)) \<le> 2 ^ (c + 1)"
    by (intro round_half_even_scaled)
next
  assume c: "K < c"
  then have e: "(2::nat) ^ c = 2 ^ K * 2 ^ (c - K)"
    by (simp add: power_add [symmetric])
  have "2 ^ c * d \<le> n * 2 ^ (c - K)"
    using assms(2) by (simp add: e mult_ac mult_le_mono2)
  moreover have "n * 2 ^ (c - K) < 2 ^ (c + 1) * d"
  proof -
    from assms(3) have "n * 2 ^ (c - K) < (d * 2 ^ (K + 1)) * 2 ^ (c - K)"
      by (simp only: mult_less_cancel2) simp
    also have "\<dots> = 2 ^ (c + 1) * d"
      by (simp add: e mult_ac)
    finally show ?thesis .
  qed
  ultimately show "2 ^ c \<le> round_half_even (n * 2 ^ (c - K)) d \<and>
      round_half_even (n * 2 ^ (c - K)) d \<le> 2 ^ (c + 1)"
    using assms(1) by (intro round_half_even_scaled)
qed

lemma round_half_even_below:
  assumes "0 < b" and "2 * a < (2 * P - 1) * b"
  shows "round_half_even a b < P"
proof -
  define q where "q = a div b"
  define r where "r = a mod b"
  define X where "X = P * b"
  define Y where "Y = q * b"
  define Z where "Z = (2 * P - 1) * b"
  have a: "a = Y + r" by (simp add: q_def r_def Y_def)
  have r: "r < b" using assms(1) by (simp add: r_def)
  have az: "2 * (Y + r) < Z" using assms(2) by (simp only: a Z_def)
  have below: "Z \<le> 2 * X"
  proof -
    have "(2 * P - 1) * b \<le> (2 * P) * b" by (intro mult_le_mono1) simp
    then show ?thesis by (simp only: mult.assoc X_def Z_def)
  qed
  have qP: "q < P"
  proof (rule ccontr)
    assume "\<not> q < P"
    then have "P \<le> q" by simp
    then have "X \<le> Y" unfolding X_def Y_def by (rule mult_le_mono1)
    with below az show False by arith
  qed
  show ?thesis
  proof (cases "q + 1 < P")
    case True
    then show ?thesis
      using round_half_even_bounds(2) [of a b] by (simp add: q_def)
  next
    case False
    with qP have P: "P = q + 1" by simp
    have "Z = 2 * Y + b" by (simp add: P Z_def Y_def)
    with az have "2 * r < b" by arith
    then have "round_half_even a b = q"
      by (simp add: round_half_even_def q_def r_def Let_def)
    with qP show ?thesis by simp
  qed
qed

lemma ilog2_ratio_less:
  assumes "0 < d" and "0 < n" and "n < d * 2 ^ b"
  shows "ilog2_ratio n d < int b"
proof (rule ccontr)
  assume "\<not> ilog2_ratio n d < int b"
  then have "int b \<le> ilog2_ratio n d" by simp
  then have "(2::real) powi int b \<le> 2 powi ilog2_ratio n d"
    by (intro power_int_increasing) simp_all
  also have "\<dots> \<le> real n / real d"
    by (rule ilog2_ratio_bounds(1) [OF assms(2,1)])
  finally have "real d * 2 ^ b \<le> real n"
    using assms(1) by (simp add: pos_le_divide_eq mult.commute)
  then have "d * 2 ^ b \<le> n"
    by (metis of_nat_le_iff of_nat_mult of_nat_numeral of_nat_power)
  with assms(3) show False by simp
qed

lemma float_of_ratio_in_range:
  assumes "0 < d" and "d \<le> n" and "2 * n < (2 * 2 ^ 53 - 1) * (d * 2 ^ 971)"
  shows "\<exists>M ex. float_of_ratio s n d = Finite s M ex \<and> 2 ^ 52 \<le> M \<and> - 52 \<le> ex"
proof -
  define K where "K = nat (ilog2_ratio n d)"
  from assms have n: "0 < n" by simp
  have k: "ilog2_ratio n d = int K"
    using ilog2_ratio_nonneg [OF assms(1,2)] by (simp add: K_def)
  have "(2 * 2 ^ 53 - 1) * (d * 2 ^ 971) \<le> (2 * 2 ^ 53) * (d * 2 ^ 971)"
    by (intro mult_le_mono1) simp
  with assms(3) have "2 * n < 2 * (d * 2 ^ 1024)" by simp
  then have "n < d * 2 ^ 1024" by simp
  then have K: "K < 1024"
    using ilog2_ratio_less [OF assms(1) n] by (simp add: k)
  have lo: "d * 2 ^ K \<le> n" and hi: "n < d * 2 ^ (K + 1)"
    using ilog2_ratio_nat [OF assms(1,2)] by (simp_all add: K_def)
  define M where "M = (if 52 \<le> K then round_half_even n (d * 2 ^ (K - 52))
                       else round_half_even (n * 2 ^ (52 - K)) d)"
  have M: "2 ^ 52 \<le> M \<and> M \<le> 2 ^ 53"
    using scaled_mantissa_bounds [OF assms(1) lo hi, of 52]
    by (cases "52 \<le> K") (simp_all add: M_def)
  have top: "M < 2 ^ 53" if "K = 1023"
  proof -
    from assms(1) have "0 < d * 2 ^ 971" by simp
    from round_half_even_below [OF this, of n "2 ^ 53"] assms(3)
    have "round_half_even n (d * 2 ^ 971) < 2 ^ 53" by simp
    with that show ?thesis by (simp add: M_def)
  qed
  have ex: "max (int K - 52) (- 1074) = int K - 52" by simp
  have cases: "float_of_ratio s n d =
      (if M = 2 ^ 53 then Finite s (2 ^ 52) (int K - 52 + 1) else Finite s M (int K - 52))"
  proof (cases "M = 2 ^ 53")
    case True
    with top have "K \<noteq> 1023" by auto
    with K have K': "K \<le> 1022" by simp
    show ?thesis
    proof (cases "52 \<le> K")
      case True
      then have "nat (int K - 52) = K - 52" by simp
      with True K' show ?thesis
        unfolding float_of_ratio_def k ex Let_def M_def by simp
    next
      case False
      then have "nat (- (int K - 52)) = 52 - K" by simp
      with False K' show ?thesis
        unfolding float_of_ratio_def k ex Let_def M_def by simp
    qed
  next
    case False
    show ?thesis
    proof (cases "52 \<le> K")
      case True
      then have "nat (int K - 52) = K - 52" by simp
      with True K \<open>M \<noteq> 2 ^ 53\<close> show ?thesis
        unfolding float_of_ratio_def k ex Let_def M_def by simp
    next
      case False
      then have "nat (- (int K - 52)) = 52 - K" by simp
      with False K \<open>M \<noteq> 2 ^ 53\<close> show ?thesis
        unfolding float_of_ratio_def k ex Let_def M_def by simp
    qed
  qed
  show ?thesis
    using M by (cases "M = 2 ^ 53") (simp_all add: cases)
qed


lemma py_int_ge_one:
  assumes "2 ^ 52 \<le> M" and "- 52 \<le> ex"
  shows "\<exists>p. py_int (Finite False M ex) = Inr p \<and> 1 \<le> p"
proof (cases "0 \<le> ex")
  case True
  from assms(1) have "0 < M" by (rule less_le_trans [rotated]) simp
  then have "1 \<le> int M" by simp
  moreover have "(1::int) \<le> 2 ^ nat ex" by simp
  ultimately have "1 * 1 \<le> int M * 2 ^ nat ex"
    by (intro mult_mono) simp_all
  then have "1 \<le> int M * 2 ^ nat ex" by simp
  with True show ?thesis by (simp add: py_int_def)
next
  case False
  with assms(2) have "nat (- ex) \<le> 52" by simp
  then have "(2::int) ^ nat (- ex) \<le> 2 ^ 52"
    by (intro power_increasing) simp_all
  also have "\<dots> \<le> int M"
    using assms(1) by (metis of_nat_le_iff of_nat_numeral of_nat_power)
  finally have "0 < int M div 2 ^ nat (- ex)"
    by (simp add: pos_imp_zdiv_pos_iff)
  with False show ?thesis by (simp add: py_int_def)
qed

lemma valof_positive:
  assumes "is_finite r" and "0 < valof r"
  obtains m e where "r = Finite False m e" and "0 < m"
proof (cases r)
  case (Finite s m e)
  have "\<not> s"
  proof
    assume s
    then have "valof r = - (real m * 2 powi e)" by (simp add: Finite valof_def)
    moreover have "0 \<le> real m * 2 powi e" by simp
    ultimately show False using assms(2) by linarith
  qed
  moreover from assms(2) have "0 < m"
    by (cases "m = 0") (simp_all add: Finite valof_def)
  ultimately show ?thesis using that Finite by simp
next
  case (Infinity s)
  with assms(1) show ?thesis by (simp add: is_finite_def)
next
  case NaN
  with assms(1) show ?thesis by (simp add: is_finite_def)
qed

lemma pow2_split: "c \<le> K \<Longrightarrow> (2::nat) ^ K = 2 ^ (K - c) * 2 ^ c"
  by (simp add: power_add [symmetric])

lemma reciprocal_in_range:
  fixes m j :: nat
  assumes "m \<le> 2 ^ j" and "2 ^ j < m * 2 ^ 1024" and "j \<le> 1074"
  shows "2 * 2 ^ j < (2 * 2 ^ 53 - 1) * (m * 2 ^ 971)"
proof (cases "j < 1024")
  case True
  from assms(2) have m: "1 \<le> m" by (cases m) simp_all
  from True have "(2::nat) ^ (j + 1) \<le> 2 ^ 1024"
    by (intro power_increasing) simp_all
  then have "2 * 2 ^ j \<le> (2::nat) ^ 1024" by simp
  also have "\<dots> < (2 * 2 ^ 53 - 1) * (1 * 2 ^ 971)" by simp
  also have "\<dots> \<le> (2 * 2 ^ 53 - 1) * (m * 2 ^ 971)"
    using m by (intro mult_le_mono) simp_all
  finally show ?thesis .
next
  case False
  define x :: nat where "x = 2 ^ (j - 1024)"
  from False have j: "2 ^ j = x * 2 ^ 1024"
    using pow2_split [of 1024 j] by (simp only: x_def not_less)
  from False assms(3) have "j - 1024 \<le> 50" by simp
  then have x: "x \<le> 2 ^ 50"
    unfolding x_def by (intro power_increasing) simp_all
  from assms(2) have "x * 2 ^ 1024 < m * 2 ^ 1024" by (simp only: j)
  then have "x < m" by (simp only: mult_less_cancel2)
  then have "(2 * 2 ^ 53 - 1) * (x + 1) \<le> (2 * 2 ^ 53 - 1) * m"
    by (intro mult_le_mono2) simp
  moreover from x have "x * (2 * 2 ^ 53) < (2 * 2 ^ 53 - 1) * (x + 1)" by simp
  ultimately have "x * (2 * 2 ^ 53) < (2 * 2 ^ 53 - 1) * m" by (rule less_le_trans [rotated])
  then have "(x * (2 * 2 ^ 53)) * 2 ^ 971 < ((2 * 2 ^ 53 - 1) * m) * 2 ^ 971"
    by (simp only: mult_less_cancel2) simp
  moreover have "2 * 2 ^ j = (x * (2 * 2 ^ 53)) * 2 ^ 971"
    by (simp add: j)
  ultimately show ?thesis by (simp only: mult.assoc)
qed

lemma reciprocal_ratio_strict:
  assumes "0 < m" and "real m * 2 powi e \<le> 1" and "2 powi (- int b) < real m * 2 powi e"
    and "e < 0"
  shows "m \<le> 2 ^ nat (- e)" and "2 ^ nat (- e) < m * 2 ^ b"
proof -
  from assms(4) have p: "(2::real) powi e = 1 / 2 ^ nat (- e)"
    by (simp add: power_int_def field_simps)
  have q: "(2::real) powi (- int b) = 1 / 2 ^ b"
    by (simp add: power_int_minus field_simps)
  from assms(2) have "real m \<le> real (2 ^ nat (- e))"
    by (simp add: p field_simps)
  then show "m \<le> 2 ^ nat (- e)" by (simp only: of_nat_le_iff)
  from assms(3) have "real (2 ^ nat (- e)) < real (m * 2 ^ b)"
    by (simp add: p q field_simps)
  then show "2 ^ nat (- e) < m * 2 ^ b" by (simp only: of_nat_less_iff)
qed

lemma period_of_rate:
  assumes "is_double r" and "is_finite r" and "2 powi (- 1024) < valof r" and "valof r \<le> 1"
  shows "float_gt_zero r \<and> (\<exists>q p. py_truediv_one r = Inr q \<and> py_int q = Inr p \<and> 1 \<le> p)"
proof -
  have "(0::real) < 2 powi (- 1024)" by simp
  with assms(3) have "0 < valof r" by (rule less_trans [rotated])
  with assms(2) obtain m e where r: "r = Finite False m e" and m: "0 < m"
    by (rule valof_positive)
  from assms(1) have e: "- 1074 \<le> e" by (simp add: r is_double_def)
  have v: "valof r = real m * 2 powi e" by (simp add: r valof_def)
  have lo: "2 powi (- int 1024) < real m * 2 powi e"
    using assms(3) by (simp add: v)
  have hi: "real m * 2 powi e \<le> 1"
    using assms(4) by (simp add: v)
  have "\<exists>M ex. py_truediv_one r = Inr (Finite False M ex) \<and> 2 ^ 52 \<le> M \<and> - 52 \<le> ex"
  proof (cases "0 \<le> e")
    case True
    have d: "0 < m * 2 ^ nat e" using m by simp
    from True hi have "real (m * 2 ^ nat e) \<le> real 1"
      by (simp add: power_int_def)
    then have le: "m * 2 ^ nat e \<le> 1" by (simp only: of_nat_le_iff)
    have "(2::nat) * 1 < (2 * 2 ^ 53 - 1) * (1 * 2 ^ 971)" by simp
    also have "\<dots> \<le> (2 * 2 ^ 53 - 1) * ((m * 2 ^ nat e) * 2 ^ 971)"
      using d by (intro mult_le_mono) simp_all
    finally have "2 * 1 < (2 * 2 ^ 53 - 1) * ((m * 2 ^ nat e) * 2 ^ 971)" .
    from float_of_ratio_in_range [OF d le this, of False] m True show ?thesis
      by (simp add: r py_truediv_one_def)
  next
    case False
    then have neg: "e < 0" by simp
    from e neg have j: "nat (- e) \<le> 1074" by simp
    note b = reciprocal_ratio_strict [OF m hi lo neg]
    from float_of_ratio_in_range [OF m b(1) reciprocal_in_range [OF b j], of False] m False
    show ?thesis
      by (simp add: r py_truediv_one_def)
  qed
  then obtain M ex where q: "py_truediv_one r = Inr (Finite False M ex)"
    and M: "2 ^ 52 \<le> M" "- 52 \<le> ex"
    by blast
  from py_int_ge_one [OF M] obtain p where "py_int (Finite False M ex) = Inr p" "1 \<le> p"
    by blast
  with q m show ?thesis
    by (auto simp: r float_gt_zero_def)
qed

section \<open>Concrete divisions\<close>

lemma floorlog2_pow2: "floorlog 2 (2 ^ k) = k + 1"
  using floorlog_power [of 1 2 k] by (simp add: compute_floorlog)

lemma nearest_to_one_twentieth: "float_of_ratio False 1 20 = default_failure_rate"
  by (simp add: float_of_ratio_def ilog2_ratio_def ge_pow2_def round_half_even_def
      compute_floorlog default_failure_rate_def Let_def)

lemma default_period:
  "py_truediv_one default_failure_rate = Inr (Finite False 5629499534213120 (- 48))"
  "py_int (Finite False 5629499534213120 (- 48)) = Inr 20"
  by (simp_all add: py_truediv_one_def float_of_ratio_def ilog2_ratio_def ge_pow2_def
      round_half_even_def compute_floorlog default_failure_rate_def py_int_def Let_def)

lemma one_div_tiny:
  assumes "1024 \<le> k"
  shows "py_truediv_one (Finite False 1 (- int k)) = Inr (Infinity False)"
proof -
  from assms have k: "0 < k" "52 \<le> k" by simp_all
  have l: "ilog2_ratio (2 ^ k) 1 = int k"
  proof -
    have "floorlog 2 (Suc 0) = 1" by (simp add: compute_floorlog)
    then show ?thesis
      by (simp add: ilog2_ratio_def floorlog2_pow2 ge_pow2_def Let_def)
  qed
  have ex: "max (int k - 52) (- 1074) = int k - 52" by simp
  have n: "nat (int k - 52) = k - 52" by simp
  have "(2::nat) ^ k = 2 ^ 52 * 2 ^ (k - 52)"
    using k(2) by (simp only: power_add [symmetric]) simp
  then have r: "round_half_even (2 ^ k) (2 ^ (k - 52)) = 2 ^ 52"
    by (simp add: round_half_even_def)
  have "float_of_ratio False (2 ^ k) 1 = Infinity False"
    unfolding float_of_ratio_def l ex Let_def using assms k by (simp add: n r)
  with k show ?thesis
    by (simp add: py_truediv_one_def)
qed

section \<open>The default failure rate\<close>

lemma not_multiple_between:
  fixes p n j :: nat
  assumes "p * n < j" and "j < p * n + p"
  shows "j mod p \<noteq> 0"
proof
  assume "j mod p = 0"
  then obtain q where q: "j = p * q" by (auto simp: mod_eq_0_iff_dvd)
  from assms(1) have "n < q" by (simp add: q)
  moreover from assms(2) have "p * q < p * Suc n" by (simp add: q)
  then have "q < Suc n" by (simp only: mult_less_cancel1)
  ultimately show False by simp
qed

lemma filter_block:
  assumes "0 < p"
  shows "filter (\<lambda>i. i mod int p = 0) (map int [p * n..<p * n + p]) = [int (p * n)]"
proof -
  from assms have u: "[p * n..<p * n + p] = p * n # [Suc (p * n)..<p * n + p]"
    by (simp add: upt_rec)
  have "int j mod int p \<noteq> 0" if "j \<in> set [Suc (p * n)..<p * n + p]" for j
  proof -
    from that have "j mod p \<noteq> 0"
      by (intro not_multiple_between [of p n]) simp_all
    then show ?thesis
      by (simp add: zmod_int [symmetric] del: of_nat_mod)
  qed
  then have "filter (\<lambda>i. i mod int p = 0) (map int [Suc (p * n)..<p * n + p]) = []"
    by (auto simp: filter_empty_conv)
  then show ?thesis
    by (simp add: u)
qed

lemma filter_multiples:
  assumes "0 < p"
  shows "filter (\<lambda>i. i mod int p = 0) (map int [0..<p * n]) = map (\<lambda>k. int p * int k) [0..<n]"
proof (induction n)
  case 0
  show ?case by simp
next
  case (Suc n)
  have "p * Suc n = p * n + p" by simp
  then have "[0..<p * Suc n] = [0..<p * n] @ [p * n..<p * n + p]"
    using upt_add_eq_append [of 0 "p * n" p] by (simp only: le0)
  then show ?case
    using Suc filter_block [OF assms, of n] by simp
qed

lemma failing_indices_default:
  "filter (\<lambda>i. i mod 20 = 0) (py_range 1000) = map (\<lambda>k. 20 * int k) [0..<50]"
  using filter_multiples [of 20 50] by (simp add: py_range_def)

lemma float_gt_zero_default: "float_gt_zero default_failure_rate"
  by (simp add: float_gt_zero_def default_failure_rate_def)

lemma is_failure_at_default: "is_failure_at default_failure_rate i = Inr (i mod 20 = 0)"
  by (rule is_failure_at_period [OF float_gt_zero_default default_period]) simp

lemma target_message_failure_located: "has_location (target_message i True)"
  by (simp add: target_message_def Let_def build_failure_has_location test_failure_has_location)

section \<open>Reading a framed stream\<close>



lemma length_numbered: "length (numbered idx ps) = length ps"
  by (simp add: numbered_def)





section \<open>Which indices are marked\<close>

lemma valof_zero_not_positive:
  assumes "is_finite r" and "valof r = 0"
  shows "\<not> float_gt_zero r"
proof (cases r)
  case (Finite s m e)
  with assms(2) have "m = 0" by (simp add: valof_def split: if_splits)
  with Finite show ?thesis by (simp add: float_gt_zero_def)
next
  case (Infinity s)
  with assms(1) show ?thesis by (simp add: is_finite_def)
next
  case NaN
  then show ?thesis by (simp add: float_gt_zero_def)
qed

lemma marks_total:
  assumes "is_double r" and "is_finite r"
    and "valof r = 0 \<or> (2 powi (- 1024) < valof r \<and> valof r \<le> 1)"
  shows "is_failure_at r i = Inr (marked r i)"
proof -
  have "\<exists>b. is_failure_at r i = Inr b"
  proof (cases "valof r = 0")
    case True
    with assms(2) have "\<not> float_gt_zero r" by (rule valof_zero_not_positive)
    then have "is_failure_at r i = Inr False" by (rule is_failure_at_not_positive)
    then show ?thesis by blast
  next
    case False
    with assms(3) have "2 powi (- 1024) < valof r" "valof r \<le> 1" by simp_all
    from period_of_rate [OF assms(1,2) this] obtain q p where
      "float_gt_zero r" "py_truediv_one r = Inr q" "py_int q = Inr p" "1 \<le> p"
      by blast
    then have "is_failure_at r i = Inr (i mod p = 0)"
      by (intro is_failure_at_period) simp_all
    then show ?thesis by blast
  qed
  then show ?thesis using is_failure_at_marked by blast
qed

lemma first_index_marked:
  assumes "is_double r" and "is_finite r" and "2 powi (- 1024) < valof r" and "valof r \<le> 1"
  shows "marked r 0"
proof -
  from period_of_rate [OF assms] obtain q p where
    "float_gt_zero r" "py_truediv_one r = Inr q" "py_int q = Inr p" "1 \<le> p"
    by blast
  then have "is_failure_at r 0 = Inr (0 mod p = 0)"
    by (intro is_failure_at_period) simp_all
  then show ?thesis by (simp add: marked_def)
qed

lemma tiny_rate_marks_nothing:
  assumes "1024 \<le> k"
  shows "is_failure_at (Finite False 1 (- int k)) i = Inl OverflowError"
  using one_div_tiny [OF assms]
  by (simp add: is_failure_at_def float_gt_zero_def py_int_def)

lemma generate_raises:
  assumes "is_failure_at failure_rate 0 = Inl err" and "1 \<le> num_targets"
  shows "generate_large_bep_file num_targets failure_rate = Inl err"
proof -
  from assms(2) have "0 < nat num_targets" by simp
  then have "py_range num_targets = 0 # map int [1..<nat num_targets]"
    by (simp add: py_range_def upt_rec)
  with assms(1) show ?thesis
    by (simp add: generate_large_bep_file_def write_record_frame)
qed

section \<open>The completion record\<close>

lemma last_emitted:
  "last (emitted b num_targets) =
     completion_msg (int (length (filter b (py_range num_targets))))"
  by (simp add: emitted_def)

lemma completion_msg_code:
  \<open>completion_msg n =
     (if 0 < n then ''{"finished": {"exitCode": {"code": 1}}}''
      else ''{"finished": {"exitCode": {"code": 0}}}'')\<close>
  by (simp add: completion_msg_def)

lemma completion_code_of_returned_run:
  assumes "generate_large_bep_file num_targets failure_rate = Inr out"
  shows \<open>out = concat (map frame (emitted (marked failure_rate) num_targets)) \<and>
    last (emitted (marked failure_rate) num_targets) =
      (if \<exists>i \<in> set (py_range num_targets). marked failure_rate i
       then ''{"finished": {"exitCode": {"code": 1}}}''
       else ''{"finished": {"exitCode": {"code": 0}}}'')\<close>
proof -
  have "0 < int (length (filter (marked failure_rate) (py_range num_targets))) \<longleftrightarrow>
      (\<exists>i \<in> set (py_range num_targets). marked failure_rate i)"
    by (simp add: filter_empty_conv)
  then show ?thesis
    using generate_returns [OF assms] by (simp only: last_emitted completion_msg_code)
qed

lemma completion_code_in_range:
  assumes "is_double failure_rate" and "is_finite failure_rate"
    and "2 powi (- 1024) < valof failure_rate" and "valof failure_rate \<le> 1"
    and "1 \<le> num_targets"
  shows \<open>marked failure_rate 0 \<and>
    generate_large_bep_file num_targets failure_rate =
      Inr (concat (map frame (emitted (marked failure_rate) num_targets))) \<and>
    last (emitted (marked failure_rate) num_targets) = ''{"finished": {"exitCode": {"code": 1}}}''\<close>
proof -
  have m: "marked failure_rate 0" using assms(1-4) by (rule first_index_marked)
  from assms(5) have "0 \<in> set (py_range num_targets)"
    by (auto simp: py_range_def image_iff intro!: bexI [of _ 0])
  with m have "\<exists>i \<in> set (py_range num_targets). marked failure_rate i" by blast
  moreover have "valof failure_rate = 0 \<or>
      (2 powi (- 1024) < valof failure_rate \<and> valof failure_rate \<le> 1)"
    using assms(3,4) by blast
  then have g: "generate_large_bep_file num_targets failure_rate =
      Inr (concat (map frame (emitted (marked failure_rate) num_targets)))"
    by (intro generate_events marks_total [OF assms(1,2)])
  ultimately show ?thesis
    using m completion_code_of_returned_run [OF g] by simp
qed

section \<open>A small generated stream\<close>















section \<open>The size of the generated stream\<close>




section \<open>Configuration constants\<close>

text \<open>
  C7. The configured limits are: default maximum BEP file size 100 MB, at most 50 failures
  kept, at most 5000 characters per message, at most 10 error lines per message, at most
  20 strings extracted per event, at most 10 varint bytes, 3 annotation retry attempts, and
  an exponential-backoff base delay of 1.0 seconds.
\<close>

theorem config_constants:
  "MAX_FILE_SIZE_MB_DEFAULT = 100 \<and> MAX_FAILURES_DEFAULT = 50 \<and> MAX_MESSAGE_SIZE = 5000 \<and>
   MAX_ERROR_LINES = 10 \<and> MAX_STRINGS_PER_EVENT = 20 \<and> MAX_VARINT_BYTES = 10 \<and>
   ANNOTATION_RETRY_ATTEMPTS = 3 \<and>
   is_double ANNOTATION_RETRY_BASE_DELAY_SECONDS \<and>
   is_finite ANNOTATION_RETRY_BASE_DELAY_SECONDS \<and>
   valof ANNOTATION_RETRY_BASE_DELAY_SECONDS = 1"
  by (simp add: MAX_FILE_SIZE_MB_DEFAULT_def MAX_FAILURES_DEFAULT_def MAX_MESSAGE_SIZE_def
      MAX_ERROR_LINES_def MAX_STRINGS_PER_EVENT_def MAX_VARINT_BYTES_def
      ANNOTATION_RETRY_ATTEMPTS_def ANNOTATION_RETRY_BASE_DELAY_SECONDS_def
      is_double_def is_finite_def valof_def)

section \<open>The varint encoder against the varint reader\<close>

text \<open>
  C2 (amended). For every nonnegative integer \<open>v\<close>, \<open>encode_varint v\<close> is the unsigned
  base-128 varint of \<open>v\<close>: it is not empty, every byte except the last has the continuation
  bit \<open>0x80\<close> set, the last byte has it clear, and the bytes denote \<open>v\<close> (seven value bits
  per byte, least significant group first). Reading it back with \<open>readVarint\<close>, whatever
  bytes follow, returns \<open>(v, len(encode_varint(v)))\<close> exactly when \<open>v < 2 ^ 64\<close>; a wider
  value is rejected with \<open>MalformedVarint\<close>, as the reader's contract says.
\<close>

theorem encode_varint_roundtrip:
  assumes "0 \<le> v"
  shows "\<exists>bs. encode_varint v = Inr bs \<and> bs \<noteq> [] \<and>
           list_all continuation_bit (butlast bs) \<and> \<not> continuation_bit (last bs) \<and>
           varint_value bs = nat v \<and>
           (\<forall>rest. readVarint (nat MAX_VARINT_BYTES) (bs @ rest) =
              (if v < 2 ^ 64 then Inr (nat v, length bs) else Inl MalformedVarint))"
proof -
  let ?bs = "varint (nat v)"
  have enc: "encode_varint v = Inr ?bs"
    using assms by (rule encode_varint_nonneg)
  have rd: "readVarint (nat MAX_VARINT_BYTES) (?bs @ rest) =
              (if v < 2 ^ 64 then Inr (nat v, length ?bs) else Inl MalformedVarint)" for rest
  proof (cases "v < 2 ^ 64")
    case True
    with assms have "nat v < 2 ^ 64" by (simp add: nat_less_iff)
    then have "nat v < 2 ^ (7 * 10)"
      by (rule less_le_trans) simp
    then have "length ?bs \<le> 10"
      by (intro length_varint_le) simp_all
    with True \<open>nat v < 2 ^ 64\<close> show ?thesis
      by (simp add: readVarint_varint MAX_VARINT_BYTES_def)
  next
    case False
    with assms have "\<not> nat v < 2 ^ 64" by (simp add: nat_less_iff)
    with False show ?thesis by (simp add: readVarint_varint)
  qed
  show ?thesis
    using enc rd varint_nonempty [of "nat v"] varint_structure [of "nat v"]
      varint_value_varint [of "nat v"]
    by blast
qed

theorem encode_varint_roundtrip_witness:
  "encode_varint 300 = Inr [CHR 0xAC, CHR 0x02] \<and>
   readVarint (nat MAX_VARINT_BYTES) ([CHR 0xAC, CHR 0x02] @ ''rest'') = Inr (300, 2)"
proof -
  have e: "encode_varint 300 = Inr [CHR 0xAC, CHR 0x02]"
    by (simp add: encode_varint_nonneg varint.simps char_of_eq_iff)
  from encode_varint_roundtrip [of 300] e show ?thesis
    by auto
qed

theorem encode_varint_roundtrip_fails_beyond_64_bits:
  "encode_varint (2 ^ 64) =
     Inr [CHR 0x80, CHR 0x80, CHR 0x80, CHR 0x80, CHR 0x80, CHR 0x80, CHR 0x80, CHR 0x80,
          CHR 0x80, CHR 0x02] \<and>
   readVarint (nat MAX_VARINT_BYTES)
     [CHR 0x80, CHR 0x80, CHR 0x80, CHR 0x80, CHR 0x80, CHR 0x80, CHR 0x80, CHR 0x80,
      CHR 0x80, CHR 0x02] = Inl MalformedVarint"
proof -
  have v: "varint (2 ^ 64) =
      [CHR 0x80, CHR 0x80, CHR 0x80, CHR 0x80, CHR 0x80, CHR 0x80, CHR 0x80, CHR 0x80,
       CHR 0x80, CHR 0x02]"
    by (simp add: varint.simps char_of_eq_iff)
  have "encode_varint (2 ^ 64) = Inr (varint (2 ^ 64))"
    using encode_varint_nat [of "2 ^ 64"] by simp
  moreover have "readVarint (nat MAX_VARINT_BYTES) (varint (2 ^ 64) @ []) = Inl MalformedVarint"
    by (subst readVarint_varint) simp
  ultimately show ?thesis
    unfolding v by simp
qed

text \<open>
  C3. For every value \<open>0 \<le> v < 2 ^ 64\<close>, \<open>encode_varint v\<close> has at most
  \<open>MAX_VARINT_BYTES = 10\<close> bytes, so it is accepted by a varint reader that allows
  \<open>MAX_VARINT_BYTES\<close> continuation bytes, and also by one that allows only
  \<open>MAX_VARINT_BYTES\<close> bytes in all (nine continuation bytes and the last byte); both
  readers reject values wider than 64 bits.
\<close>

theorem encode_varint_at_most_ten_bytes:
  assumes "0 \<le> v" and "v < 2 ^ 64"
  shows "\<exists>bs. encode_varint v = Inr bs \<and> int (length bs) \<le> MAX_VARINT_BYTES \<and>
           (\<forall>rest. readVarint (nat MAX_VARINT_BYTES) (bs @ rest) = Inr (nat v, length bs)) \<and>
           (\<forall>rest. readVarint (nat MAX_VARINT_BYTES - 1) (bs @ rest) = Inr (nat v, length bs))"
proof -
  let ?bs = "varint (nat v)"
  from assms have small: "nat v < 2 ^ 64" by (simp add: nat_less_iff)
  then have "nat v < 2 ^ (7 * 10)"
    by (rule less_le_trans) simp
  then have len: "length ?bs \<le> 10"
    by (intro length_varint_le) simp_all
  have "encode_varint v = Inr ?bs"
    using assms(1) by (rule encode_varint_nonneg)
  moreover from len have "int (length ?bs) \<le> MAX_VARINT_BYTES"
    by (simp add: MAX_VARINT_BYTES_def)
  moreover from len small
  have "readVarint (nat MAX_VARINT_BYTES) (?bs @ rest) = Inr (nat v, length ?bs)" for rest
    by (simp add: readVarint_varint MAX_VARINT_BYTES_def)
  moreover from len small
  have "readVarint (nat MAX_VARINT_BYTES - 1) (?bs @ rest) = Inr (nat v, length ?bs)" for rest
    by (simp add: readVarint_varint MAX_VARINT_BYTES_def)
  ultimately show ?thesis by blast
qed

theorem encode_varint_at_most_ten_bytes_witness:
  "encode_varint (2 ^ 64 - 1) =
     Inr [CHR 0xFF, CHR 0xFF, CHR 0xFF, CHR 0xFF, CHR 0xFF, CHR 0xFF, CHR 0xFF, CHR 0xFF,
          CHR 0xFF, CHR 0x01] \<and>
   readVarint (nat MAX_VARINT_BYTES - 1)
     [CHR 0xFF, CHR 0xFF, CHR 0xFF, CHR 0xFF, CHR 0xFF, CHR 0xFF, CHR 0xFF, CHR 0xFF,
      CHR 0xFF, CHR 0x01] = Inr (2 ^ 64 - 1, nat MAX_VARINT_BYTES)"
proof -
  have e: "encode_varint (2 ^ 64 - 1) =
     Inr [CHR 0xFF, CHR 0xFF, CHR 0xFF, CHR 0xFF, CHR 0xFF, CHR 0xFF, CHR 0xFF, CHR 0xFF,
          CHR 0xFF, CHR 0x01]"
    by (simp add: encode_varint_nonneg varint.simps char_of_eq_iff)
  from encode_varint_at_most_ten_bytes [of "2 ^ 64 - 1"] e
  have "readVarint (nat MAX_VARINT_BYTES - 1)
     ([CHR 0xFF, CHR 0xFF, CHR 0xFF, CHR 0xFF, CHR 0xFF, CHR 0xFF, CHR 0xFF, CHR 0xFF,
      CHR 0xFF, CHR 0x01] @ []) = Inr (nat (2 ^ 64 - 1), 10)"
    by auto
  with e show ?thesis
    by (simp add: MAX_VARINT_BYTES_def)
qed

section \<open>Failure messages\<close>






section \<open>The generated stream\<close>




text \<open>
  C10 (the code at the failing input). For \<open>failure_rate = 5e-324\<close>, the smallest positive
  float, which lies in \<open>(0, 1]\<close>, \<open>1 / failure_rate\<close> is infinite and
  \<open>int(1 / failure_rate)\<close> raises \<open>OverflowError\<close>: with \<open>num_targets = 1\<close> the target with
  index 0 is not marked failing and the generator leaves with the exception before any
  completion record is written.
\<close>

theorem smallest_positive_rate_raises:
  "is_double (Finite False 1 (- 1074)) \<and> is_finite (Finite False 1 (- 1074)) \<and>
   0 < valof (Finite False 1 (- 1074)) \<and> valof (Finite False 1 (- 1074)) \<le> 1 \<and>
   py_truediv_one (Finite False 1 (- 1074)) = Inr (Infinity False) \<and>
   py_int (Infinity False) = Inl OverflowError \<and>
   is_failure_at (Finite False 1 (- 1074)) 0 = Inl OverflowError \<and>
   generate_large_bep_file 1 (Finite False 1 (- 1074)) = Inl OverflowError"
proof -
  have t: "is_failure_at (Finite False 1 (- 1074)) 0 = Inl OverflowError"
    using tiny_rate_marks_nothing [of 1074 0] by simp
  have d: "py_truediv_one (Finite False 1 (- 1074)) = Inr (Infinity False)"
    using one_div_tiny [of 1074] by simp
  have g: "generate_large_bep_file 1 (Finite False 1 (- 1074)) = Inl OverflowError"
    by (rule generate_raises [OF t]) simp
  have v: "0 < valof (Finite False 1 (- 1074))" "valof (Finite False 1 (- 1074)) \<le> 1"
    by (simp_all add: valof_def power_int_minus inverse_le_1_iff)
  show ?thesis
    using t d g v by (simp add: is_double_def is_finite_def py_int_def)
qed

text \<open>
  C9. For \<open>failure_rate = 0\<close> (either zero of the float type) the division
  \<open>1 / failure_rate\<close>, which would raise \<open>ZeroDivisionError\<close>, is never evaluated: the
  guard \<open>failure_rate > 0\<close> is false, so \<open>is_failure\<close> is \<open>False\<close> for every index. For
  every \<open>num_targets\<close> the generator returns, every target event is written with
  \<open>success = True\<close>, and the completion record carries \<open>exitCode.code = 0\<close>.
\<close>

theorem zero_rate_never_divides:
  \<open>py_truediv_one (Finite s 0 e) = Inl ZeroDivisionError \<and>
   is_failure_at (Finite s 0 e) i = Inr False \<and>
   generate_large_bep_file num_targets (Finite s 0 e) =
     Inr (concat (map frame
       (header_msg # map (\<lambda>i. target_message i False) (py_range num_targets)
          @ [completion_msg 0]))) \<and>
   target_message i False =
     (if i mod 2 = 0 then create_build_event_message (target_name_at i) True i
      else create_test_event_message (target_name_at i) True i) \<and>
   completion_msg 0 = ''{"finished": {"exitCode": {"code": 0}}}''\<close>
proof -
  have "generate_large_bep_file num_targets (Finite s 0 e) =
      Inr (concat (map frame (emitted (\<lambda>i. False) num_targets)))"
    by (rule generate_events) (rule is_failure_at_zero)
  then show ?thesis
    by (simp add: emitted_no_failures is_failure_at_zero py_truediv_one_def target_message_def
        completion_msg_def)
qed

text \<open>
  C4. With \<open>num_targets = 1000\<close> and the default \<open>failure_rate = 0.05\<close>,
  \<open>int(1 / 0.05)\<close> is 20 and exactly the 50 targets with \<open>i % 20 == 0\<close> are marked
  failing; the stream holds a build event for every even index and a test event for every
  odd index, every failing event carries a \<open>path:line:column:\<close> diagnostic, and the
  completion record reports exit code 1.
\<close>

theorem default_rate_thousand_targets:
  \<open>(\<exists>q. py_truediv_one default_failure_rate = Inr q \<and> py_int q = Inr 20) \<and>
   is_failure_at default_failure_rate i = Inr (i mod 20 = 0) \<and>
   filter (\<lambda>i. i mod 20 = 0) (py_range 1000) = map (\<lambda>k. 20 * int k) [0..<50] \<and>
   generate_large_bep_file 1000 default_failure_rate =
     Inr (concat (map frame
       (header_msg # map (\<lambda>i. target_message i (i mod 20 = 0)) (py_range 1000)
          @ [completion_msg 50]))) \<and>
   target_message i is_failure =
     (if i mod 2 = 0 then create_build_event_message (target_name_at i) (\<not> is_failure) i
      else create_test_event_message (target_name_at i) (\<not> is_failure) i) \<and>
   has_location (target_message i True) \<and>
   completion_msg 50 = ''{"finished": {"exitCode": {"code": 1}}}''\<close>
proof -
  have "generate_large_bep_file 1000 default_failure_rate =
      Inr (concat (map frame (emitted (\<lambda>i. i mod 20 = 0) 1000)))"
    by (rule generate_events) (rule is_failure_at_default)
  moreover have "emitted (\<lambda>i. i mod 20 = 0) 1000 =
      header_msg # map (\<lambda>i. target_message i (i mod 20 = 0)) (py_range 1000)
        @ [completion_msg 50]"
    by (simp add: emitted_def failing_indices_default)
  ultimately show ?thesis
    using default_period is_failure_at_default [of i] failing_indices_default
      target_message_failure_located [of i]
    by (simp add: target_message_def Let_def completion_msg_def)
qed

section \<open>The analyzer process\<close>


end
